theory Spec2Isabelle
  imports Complex_Main
begin

section \<open>JavaScript values used by the cache facade\<close>

text \<open>
  A JavaScript number is a double. \<open>Num x\<close> is the finite double whose value is the real
  \<open>x\<close>, the two zeros taken as one, and \<open>NaN\<close> is NaN. Sums and products are computed only
  where the arithmetic of doubles is exact: on integers of magnitude at most \<open>2^53\<close> whose
  result is again such an integer. Everywhere else, where the code rounds, overflows to
  an infinity or leaves the digits of \<open>parseInt\<close> to the implementation, the result is
  \<open>Untracked\<close>: a double that this development does not compute. An infinite \<open>expire\<close>
  option is not represented.
  Strings are strings of code units below 256.
\<close>

datatype number = Num real | NaN | Untracked

definition safe_int :: "real \<Rightarrow> bool" where
  "safe_int x = (x = of_int \<lfloor>x\<rfloor> \<and> \<bar>x\<bar> \<le> 2 ^ 53)"

definition tracked :: "real \<Rightarrow> number" where
  "tracked x = (if safe_int x then Num x else Untracked)"

text \<open>NaN absorbs every operand, as in the arithmetic of doubles.\<close>

fun mul :: "number \<Rightarrow> number \<Rightarrow> number" where
  "mul NaN _ = NaN"
| "mul _ NaN = NaN"
| "mul (Num a) (Num b) = (if safe_int a \<and> safe_int b then tracked (a * b) else Untracked)"
| "mul _ _ = Untracked"

fun add :: "number \<Rightarrow> number \<Rightarrow> number" where
  "add NaN _ = NaN"
| "add _ NaN = NaN"
| "add (Num a) (Num b) = (if safe_int a \<and> safe_int b then tracked (a + b) else Untracked)"
| "add _ _ = Untracked"

text \<open>The comparisons \<open>>\<close> and \<open><\<close> of JavaScript: false as soon as an operand is NaN.
  They are asked about tracked numbers only.\<close>

fun gt :: "number \<Rightarrow> number \<Rightarrow> bool" where
  "gt (Num a) (Num b) = (a > b)"
| "gt _ _ = False"

fun lt :: "number \<Rightarrow> number \<Rightarrow> bool" where
  "lt (Num a) (Num b) = (a < b)"
| "lt _ _ = False"

datatype error =
    TypeError_format  \<comment> \<open>TypeError: Cache expiration time must be string formatted as ...\<close>
  | TypeError_range   \<comment> \<open>TypeError: Cache expiration time out of range.\<close>
  | TypeError_null    \<comment> \<open>TypeError raised by the runtime on a property access through null\<close>
  | Dangling          \<comment> \<open>a reference to an object that was never allocated: model only\<close>
  | Untracked_double  \<comment> \<open>the code goes on with a double that is not computed here: model only\<close>

subsection \<open>String primitives: trim, split, parseInt\<close>

definition is_ws :: "char \<Rightarrow> bool" where
  "is_ws c = (c = CHR 0x09 \<or> c = CHR 0x0A \<or> c = CHR 0x0B \<or> c = CHR 0x0C \<or> c = CHR 0x0D
              \<or> c = CHR 0x20 \<or> c = CHR 0xA0)"

definition trim :: "string \<Rightarrow> string" where
  "trim s = rev (dropWhile is_ws (rev (dropWhile is_ws s)))"

text \<open>\<open>s.split(sep)\<close> for a separator of one code unit: never the empty list.\<close>

fun split_str :: "char \<Rightarrow> string \<Rightarrow> string list" where
  "split_str sep [] = [[]]"
| "split_str sep (c # cs) =
     (if c = sep then [] # split_str sep cs
      else (case split_str sep cs of
              [] \<Rightarrow> [[c]]
            | x # xs \<Rightarrow> (c # x) # xs))"

definition digit_val :: "char \<Rightarrow> nat option" where
  "digit_val c =
     (let n = (of_char c :: nat) in
      if 48 \<le> n \<and> n \<le> 57 then Some (n - 48)
      else if 97 \<le> n \<and> n \<le> 122 then Some (n - 87)
      else if 65 \<le> n \<and> n \<le> 90 then Some (n - 55)
      else None)"

definition is_digit :: "nat \<Rightarrow> char \<Rightarrow> bool" where
  "is_digit radix c = (case digit_val c of None \<Rightarrow> False | Some d \<Rightarrow> d < radix)"

definition math_int :: "nat \<Rightarrow> string \<Rightarrow> nat" where
  "math_int radix ds =
     foldl (\<lambda>acc c. acc * radix + (case digit_val c of None \<Rightarrow> 0 | Some d \<Rightarrow> d)) 0 ds"

text \<open>
  \<open>parseInt(s)\<close> with no radix: leading white space is skipped, one sign is read, a prefix
  \<open>0x\<close> or \<open>0X\<close> selects radix 16, and the longest run of digits is the value; no digit at
  all gives NaN. Whatever follows the digits is ignored.
\<close>

definition parseInt :: "string \<Rightarrow> number" where
  "parseInt s =
     (let s1 = dropWhile is_ws s;
          sign = (if s1 \<noteq> [] \<and> hd s1 = CHR ''-'' then - 1 else (1::real));
          s2 = (if s1 \<noteq> [] \<and> (hd s1 = CHR ''+'' \<or> hd s1 = CHR ''-'') then tl s1 else s1);
          hex = (length s2 \<ge> 2 \<and> (take 2 s2 = ''0x'' \<or> take 2 s2 = ''0X''));
          radix = (if hex then 16 else 10);
          s3 = (if hex then drop 2 s2 else s2);
          z = takeWhile (is_digit radix) s3
      in if z = [] then NaN else tracked (sign * real (math_int radix z)))"

section \<open>ZoicCache: the options and the constructor\<close>

datatype expire_opt = EStr string | ENum number

record options =
  opt_cache :: "string option"
  opt_expire :: "expire_opt option"
  opt_respondOnHit :: "bool option"

text \<open>The classes LRU and LFU are imported; only which one is built, and with which
  expiration time, is recorded.\<close>

datatype cache_impl = LRU number | LFU number

record ZoicCache =
  cache :: cache_impl
  expire :: number
  respondOnHit :: bool

definition initCacheType :: "number \<Rightarrow> string option \<Rightarrow> cache_impl" where
  "initCacheType ex c = (if c = Some ''LFU'' then LFU ex else LRU ex)"

text \<open>\<open>!v\<close> on a string or a number. No option passed in is \<open>Untracked\<close>; that case goes
  on to the range check, which stops on it.\<close>

fun falsy :: "expire_opt \<Rightarrow> bool" where
  "falsy (EStr s) = (s = [])"
| "falsy (ENum (Num x)) = (x = 0)"
| "falsy (ENum NaN) = True"
| "falsy (ENum Untracked) = False"

text \<open>The callback of \<open>reduce\<close>: one element of the split string added to the running sum.\<close>

definition unit_step :: "number \<Rightarrow> string \<Rightarrow> error + number" where
  "unit_step arr el =
     (if el \<noteq> [] \<and> last el = CHR ''h'' then Inr (add arr (mul (parseInt (butlast el)) (Num 3600)))
      else if el \<noteq> [] \<and> last el = CHR ''m'' then Inr (add arr (mul (parseInt (butlast el)) (Num 60)))
      else if el \<noteq> [] \<and> last el = CHR ''s'' then Inr (add arr (parseInt (butlast el)))
      else Inl TypeError_format)"

fun reduce :: "('b \<Rightarrow> 'a \<Rightarrow> error + 'b) \<Rightarrow> 'a list \<Rightarrow> 'b \<Rightarrow> error + 'b" where
  "reduce f [] acc = Inr acc"
| "reduce f (x # xs) acc =
     (case f acc x of Inl e \<Rightarrow> Inl e | Inr acc' \<Rightarrow> reduce f xs acc')"

definition range_check :: "number \<Rightarrow> error + number" where
  "range_check seconds =
     (if seconds = Untracked then Inl Untracked_double
      else if gt seconds (Num 86400) \<or> lt seconds (Num 0) then Inl TypeError_range
      else Inr seconds)"

definition parseExpTime :: "expire_opt option \<Rightarrow> error + number" where
  "parseExpTime numberString =
     (case numberString of
        None \<Rightarrow> Inr (Num 86400)
      | Some v \<Rightarrow>
          if falsy v then Inr (Num 86400)
          else (case v of
                  EStr s \<Rightarrow>
                    (case reduce unit_step (split_str CHR '','' (trim s)) (Num 0) of
                       Inl e \<Rightarrow> Inl e
                     | Inr seconds \<Rightarrow> range_check seconds)
                | ENum n \<Rightarrow> range_check n))"

text \<open>\<open>options?.f\<close>: undefined when the options object itself is absent.\<close>

definition opt_field :: "(options \<Rightarrow> 'a option) \<Rightarrow> options option \<Rightarrow> 'a option" where
  "opt_field f opts = (case opts of None \<Rightarrow> None | Some o' \<Rightarrow> f o')"

text \<open>\<open>a || b\<close> on an optional boolean \<open>a\<close>: \<open>a\<close> when it is truthy, else \<open>b\<close>.\<close>

definition js_or :: "bool option \<Rightarrow> bool \<Rightarrow> bool" where
  "js_or a b = (case a of Some True \<Rightarrow> True | _ \<Rightarrow> b)"

definition new_ZoicCache :: "options option \<Rightarrow> error + ZoicCache" where
  "new_ZoicCache opts =
     (case parseExpTime (opt_field opt_expire opts) of
        Inl e \<Rightarrow> Inl e
      | Inr ex \<Rightarrow>
          Inr \<lparr> cache = initCacheType ex (opt_field opt_cache opts),
                expire = ex,
                respondOnHit = js_or (opt_field opt_respondOnHit opts) True \<rparr>)"

section \<open>ZoicCache.put: the middleware that stores \<open>ctx.state.zoic\<close>\<close>

record report =
  success :: bool
  message :: string

text \<open>The response body: what an earlier middleware left there, or the object that
  \<open>put\<close> assigns.\<close>

datatype 'b body = Body 'b | FailureReport report

record ('v, 'b) Context =
  url_pathname :: string
  url_search :: string
  state_zoic :: 'v
  response_body :: "'b body"

text \<open>
  Modelled from the spec: the \<open>put\<close> of the imported cache classes (lru.ts and lfu.ts).
  It answers with a success code or a failure code, the sentinels 0 and -1 (the source
  says: response 0 for good put, -1 for err).
\<close>

datatype put_code = Good_put | Err_put

fun code_number :: "put_code \<Rightarrow> number" where
  "code_number Good_put = Num 0"
| "code_number Err_put = Num (- 1)"

text \<open>
  What awaiting \<open>this.cache.put(key, value)\<close> gives: the promise resolves to a code, or it
  rejects (or the call throws) with a value, kept as its rendering \<open>${err}\<close>. The cache's
  \<open>put\<close> is a parameter of the middleware.
\<close>

datatype put_result = Resolved put_code | Rejected string

text \<open>
  Calling \<open>next()\<close>: the rest of the chain works on the context and hands back a promise,
  or it throws before returning; the context is the one it leaves. A promise that rejects
  later is not awaited by \<open>put\<close> and counts as returned.
\<close>

datatype ('v, 'b) next_result =
    Returned "('v, 'b) Context"
  | Threw string "('v, 'b) Context"

text \<open>
  How the middleware ends: it returned what \<open>next()\<close> returned; or \<open>next()\<close> threw inside
  the \<open>try\<close> and the \<open>catch\<close> ran; or it returned without calling \<open>next\<close>.
\<close>

datatype ('v, 'b) outcome =
    Next "('v, 'b) Context"
  | NextThrew "('v, 'b) Context"
  | Finished "('v, 'b) Context"

fun calls_next :: "('v, 'b) outcome \<Rightarrow> bool" where
  "calls_next (Next _) = True"
| "calls_next (NextThrew _) = True"
| "calls_next (Finished _) = False"

definition caught :: "string \<Rightarrow> ('v, 'b) Context \<Rightarrow> ('v, 'b) Context" where
  "caught err ctx =
     ctx\<lparr>response_body := FailureReport
       \<lparr>success = False, message = err @ '' ocurred when trying to add to the cache''\<rparr>\<rparr>"

definition put ::
  "(string \<Rightarrow> 'v \<Rightarrow> put_result) \<Rightarrow> (('v, 'b) Context \<Rightarrow> ('v, 'b) next_result)
     \<Rightarrow> ('v, 'b) Context \<Rightarrow> ('v, 'b) outcome" where
  "put cache_put next ctx =
     (let v = state_zoic ctx;
          k = url_pathname ctx @ url_search ctx
      in case cache_put k v of
           Resolved c \<Rightarrow>
             (let putResponse = code_number c
              in if putResponse = Num 0 then
                   (case next ctx of
                      Returned ctx' \<Rightarrow> Next ctx'
                    | Threw err ctx' \<Rightarrow> NextThrew (caught err ctx'))
                 else if putResponse = Num (- 1) then
                   Finished (ctx\<lparr>response_body := FailureReport
                     \<lparr>success = False, message = ''failed to add entry to cache''\<rparr>\<rparr>)
                 else Finished ctx)
         | Rejected err \<Rightarrow> Finished (caught err ctx))"

text \<open>A cache whose \<open>put\<close> ends the same way for every key and payload.\<close>

definition always :: "put_result \<Rightarrow> string \<Rightarrow> 'v \<Rightarrow> put_result" where
  "always r k v = r"

section \<open>Node and DoublyLinkedList\<close>

text \<open>
  Objects live in a store: the list of the nodes allocated so far, a reference being the
  index of its node; \<open>None\<close> is null. \<open>new Node\<close> appends to the store.
\<close>

record ('v, 'k) Node =
  node_next :: "nat option"
  node_prev :: "nat option"
  node_value :: 'v
  node_key :: 'k

definition new_Node :: "'v \<Rightarrow> nat option \<Rightarrow> 'k \<Rightarrow> ('v, 'k) Node" where
  "new_Node v n k = \<lparr>node_next = n, node_prev = None, node_value = v, node_key = k\<rparr>"

record ('v, 'k) DoublyLinkedList =
  heap :: "('v, 'k) Node list"
  head :: "nat option"
  tail :: "nat option"

definition new_DoublyLinkedList :: "('v, 'k) DoublyLinkedList" where
  "new_DoublyLinkedList = \<lparr>heap = [], head = None, tail = None\<rparr>"

text \<open>Reading a property through a reference: a TypeError when the reference is null.\<close>

definition deref :: "('v, 'k) Node list \<Rightarrow> nat option \<Rightarrow> error + (nat \<times> ('v, 'k) Node)" where
  "deref h p =
     (case p of
        None \<Rightarrow> Inl TypeError_null
      | Some a \<Rightarrow> if a < length h then Inr (a, h ! a) else Inl Dangling)"

definition addHead ::
  "'v \<Rightarrow> 'k \<Rightarrow> ('v, 'k) DoublyLinkedList \<Rightarrow> error + (nat \<times> ('v, 'k) DoublyLinkedList)" where
  "addHead v k l =
     (let a = length (heap l);
          l1 = l\<lparr>heap := heap l @ [new_Node v (head l) k], head := Some a\<rparr>
      in if tail l1 = None then Inr (a, l1\<lparr>tail := head l1\<rparr>)
         else (case deref (heap l1) (head l1) of
                 Inl e \<Rightarrow> Inl e
               | Inr (_, hn) \<Rightarrow>
                   (case deref (heap l1) (node_next hn) of
                      Inl e \<Rightarrow> Inl e
                    | Inr (b, bn) \<Rightarrow>
                        Inr (a, l1\<lparr>heap := (heap l1)[b := bn\<lparr>node_prev := head l1\<rparr>]\<rparr>))))"

definition deleteTail ::
  "('v, 'k) DoublyLinkedList \<Rightarrow> error + (nat option \<times> ('v, 'k) DoublyLinkedList)" where
  "deleteTail l =
     (let deleted = tail l
      in if head l = tail l then Inr (deleted, l\<lparr>head := None, tail := None\<rparr>)
         else (case deref (heap l) (tail l) of
                 Inl e \<Rightarrow> Inl e
               | Inr (_, tn) \<Rightarrow>
                   (let l1 = l\<lparr>tail := node_prev tn\<rparr>
                    in case deref (heap l1) (tail l1) of
                         Inl e \<Rightarrow> Inl e
                       | Inr (b, bn) \<Rightarrow>
                           Inr (deleted, l1\<lparr>heap := (heap l1)[b := bn\<lparr>node_next := None\<rparr>]\<rparr>))))"

definition deleteHead ::
  "('v, 'k) DoublyLinkedList \<Rightarrow> error + (nat option \<times> ('v, 'k) DoublyLinkedList)" where
  "deleteHead l =
     (let deleted = head l
      in if head l = tail l then Inr (deleted, l\<lparr>head := None, tail := None\<rparr>)
         else (case deref (heap l) (head l) of
                 Inl e \<Rightarrow> Inl e
               | Inr (_, hn) \<Rightarrow>
                   (let l1 = l\<lparr>head := node_next hn\<rparr>
                    in case deref (heap l1) (head l1) of
                         Inl e \<Rightarrow> Inl e
                       | Inr (b, bn) \<Rightarrow>
                           Inr (deleted, l1\<lparr>heap := (heap l1)[b := bn\<lparr>node_prev := None\<rparr>]\<rparr>))))"

subsection \<open>Sequences of operations\<close>

datatype ('v, 'k) op = AddHead 'v 'k | DeleteHead | DeleteTail

fun apply_op ::
  "('v, 'k) op \<Rightarrow> ('v, 'k) DoublyLinkedList \<Rightarrow> error + ('v, 'k) DoublyLinkedList" where
  "apply_op (AddHead v k) l = (case addHead v k l of Inl e \<Rightarrow> Inl e | Inr (_, l') \<Rightarrow> Inr l')"
| "apply_op DeleteHead l = (case deleteHead l of Inl e \<Rightarrow> Inl e | Inr (_, l') \<Rightarrow> Inr l')"
| "apply_op DeleteTail l = (case deleteTail l of Inl e \<Rightarrow> Inl e | Inr (_, l') \<Rightarrow> Inr l')"

fun run ::
  "('v, 'k) op list \<Rightarrow> ('v, 'k) DoublyLinkedList \<Rightarrow> error + ('v, 'k) DoublyLinkedList" where
  "run [] l = Inr l"
| "run (x # xs) l = (case apply_op x l of Inl e \<Rightarrow> Inl e | Inr l' \<Rightarrow> run xs l')"

subsection \<open>The nodes of a list\<close>

text \<open>
  \<open>seg f h p as q\<close>: following the link \<open>f\<close> from the reference \<open>p\<close> visits exactly the
  nodes \<open>as\<close>, in this order, and arrives at \<open>q\<close>.
\<close>

fun seg ::
  "(('v, 'k) Node \<Rightarrow> nat option) \<Rightarrow> ('v, 'k) Node list \<Rightarrow> nat option \<Rightarrow> nat list
     \<Rightarrow> nat option \<Rightarrow> bool" where
  "seg f h p [] q = (p = q)"
| "seg f h p (a # as) q = (p = Some a \<and> a < length h \<and> seg f h (f (h ! a)) as q)"

text \<open>
  \<open>is_list l as\<close>: the list \<open>l\<close> holds the nodes \<open>as\<close>, head first. The forward links lead
  from the head through \<open>as\<close> to null, the backward links lead from the tail through
  \<open>as\<close> reversed to null, and no node occurs twice.
\<close>

definition is_list :: "('v, 'k) DoublyLinkedList \<Rightarrow> nat list \<Rightarrow> bool" where
  "is_list l as =
     (distinct as \<and> seg node_next (heap l) (head l) as None
      \<and> seg node_prev (heap l) (tail l) (rev as) None)"

section \<open>The constructor: expiration time, policy, respondOnHit\<close>

lemmas eval_defs = parseExpTime_def unit_step_def parseInt_def trim_def is_ws_def digit_val_def
  is_digit_def math_int_def range_check_def new_ZoicCache_def opt_field_def initCacheType_def
  js_or_def safe_int_def tracked_def

text \<open>A number strictly between the bounds, or equal to the upper one, is kept as it is.\<close>

lemma parseExpTime_number_in_range:
  "0 < x \<Longrightarrow> x \<le> 86400 \<Longrightarrow> parseExpTime (Some (ENum (Num x))) = Inr (Num x)"
  by (simp add: parseExpTime_def range_check_def)

lemma new_ZoicCache_number_in_range:
  assumes "0 < x" and "x \<le> 86400" and "opt_expire o' = Some (ENum (Num x))"
  shows "\<exists>z. new_ZoicCache (Some o') = Inr z \<and> expire z = Num x"
  using assms by (simp add: new_ZoicCache_def opt_field_def parseExpTime_number_in_range)

text \<open>
  C1. The claim: every numeric \<open>expire\<close> option \<open>n\<close> with \<open>0 \<le> n \<le> 86400\<close> is the configured
  expiration time, and \<open>n = 0\<close> gives a TTL of 0, not the default. On the code the number
  0 is falsy, so the first line of \<open>#parseExpTime\<close> returns the default 86400 before the
  range check, which admits 0, is reached. The string \<open>0s\<close> takes the other path and does
  give 0.
\<close>

theorem expire_zero_gives_default:
  "new_ZoicCache (Some \<lparr>opt_cache = None, opt_expire = Some (ENum (Num 0)),
                        opt_respondOnHit = None\<rparr>)
     = Inr \<lparr>cache = LRU (Num 86400), expire = Num 86400, respondOnHit = True\<rparr>
   \<and> new_ZoicCache (Some \<lparr>opt_cache = None, opt_expire = Some (EStr ''0s''),
                          opt_respondOnHit = None\<rparr>)
     = Inr \<lparr>cache = LRU (Num 0), expire = Num 0, respondOnHit = True\<rparr>"
  by (simp add: eval_defs)

text \<open>An element of the split string that does not end in h, m or s stops the sum.\<close>

lemma reduce_error:
  assumes "x \<in> set xs" and "\<And>acc. f acc x = Inl e"
    and "\<And>acc y e'. f acc y = Inl e' \<Longrightarrow> e' = e"
  shows "reduce f xs acc = Inl e"
  using assms(1)
proof (induction xs arbitrary: acc)
  case Nil
  then show ?case by simp
next
  case (Cons y ys)
  show ?case
  proof (cases "f acc y")
    case (Inl e')
    then show ?thesis using assms(3) by simp
  next
    case (Inr acc')
    then have "x \<noteq> y" using assms(2)[of acc] by auto
    then have "x \<in> set ys" using Cons.prems by simp
    then show ?thesis using Inr Cons.IH by simp
  qed
qed

lemma unit_step_bad_suffix:
  "el = [] \<or> last el \<notin> {CHR ''h'', CHR ''m'', CHR ''s''}
     \<Longrightarrow> unit_step acc el = Inl TypeError_format"
  by (auto simp: unit_step_def)

lemma unit_step_error: "unit_step acc el = Inl e \<Longrightarrow> e = TypeError_format"
  by (auto simp: unit_step_def split: if_splits)

lemma bad_suffix_rejected:
  assumes "s \<noteq> []" and "el \<in> set (split_str CHR '','' (trim s))"
    and "el = [] \<or> last el \<notin> {CHR ''h'', CHR ''m'', CHR ''s''}"
  shows "new_ZoicCache (Some (o'\<lparr>opt_expire := Some (EStr s)\<rparr>)) = Inl TypeError_format"
proof -
  have "reduce unit_step (split_str CHR '','' (trim s)) (Num 0) = Inl TypeError_format"
    using assms(2) unit_step_bad_suffix[OF assms(3)] unit_step_error
    by (rule reduce_error)
  then show ?thesis using assms(1)
    by (simp add: new_ZoicCache_def opt_field_def parseExpTime_def)
qed

text \<open>
  C2. The claim: every TTL string that is not a comma-separated list of numeric values, each
  followed by h, m or s, makes the construction raise. The code checks the last character of
  each element only. In \<open>xh\<close> the unit is fine and \<open>parseInt\<close> of \<open>x\<close> is NaN; NaN passes
  the range check, both comparisons being false, and the cache is built with NaN as its
  expiration time.
\<close>

theorem non_numeric_ttl_accepted:
  "new_ZoicCache (Some \<lparr>opt_cache = None, opt_expire = Some (EStr ''xh''),
                        opt_respondOnHit = None\<rparr>)
     = Inr \<lparr>cache = LRU NaN, expire = NaN, respondOnHit = True\<rparr>"
  by (simp add: eval_defs)

text \<open>
  C3. The string \<open>1h,30m,15s\<close> parses to 5415 seconds, the sum 3600 + 1800 + 15, and the
  cache is built with it. The string \<open>25h\<close> sums to 90000 seconds and the construction
  fails with the out-of-range error: no cache is returned.
\<close>

theorem ttl_string_scenarios:
  "parseExpTime (Some (EStr ''1h,30m,15s'')) = Inr (Num 5415)
   \<and> Num 5415 = add (add (Num 3600) (Num 1800)) (Num 15)
   \<and> new_ZoicCache (Some \<lparr>opt_cache = None, opt_expire = Some (EStr ''1h,30m,15s''),
                          opt_respondOnHit = None\<rparr>)
       = Inr \<lparr>cache = LRU (Num 5415), expire = Num 5415, respondOnHit = True\<rparr>
   \<and> reduce unit_step (split_str CHR '','' (trim ''25h'')) (Num 0) = Inr (Num 90000)
   \<and> parseExpTime (Some (EStr ''25h'')) = Inl TypeError_range
   \<and> new_ZoicCache (Some \<lparr>opt_cache = None, opt_expire = Some (EStr ''25h''),
                          opt_respondOnHit = None\<rparr>)
       = Inl TypeError_range"
  by (simp add: eval_defs)

text \<open>
  C4. Whatever the options, a constructed cache has \<open>respondOnHit\<close> true: the constructor
  computes \<open>options?.respondOnHit || true\<close>, so a configured false is replaced by true.
\<close>

theorem respondOnHit_always_true:
  "new_ZoicCache opts = Inr z \<Longrightarrow> respondOnHit z = True"
  by (auto simp: new_ZoicCache_def js_or_def split: sum.splits option.splits bool.splits)

theorem respondOnHit_always_true_witness:
  "new_ZoicCache (Some \<lparr>opt_cache = None, opt_expire = None, opt_respondOnHit = Some False\<rparr>)
     = Inr \<lparr>cache = LRU (Num 86400), expire = Num 86400, respondOnHit = True\<rparr>
   \<and> respondOnHit \<lparr>cache = LRU (Num 86400), expire = Num 86400, respondOnHit = True\<rparr> = True"
proof -
  have h: "new_ZoicCache (Some \<lparr>opt_cache = None, opt_expire = None,
                                 opt_respondOnHit = Some False\<rparr>)
     = Inr \<lparr>cache = LRU (Num 86400), expire = Num 86400, respondOnHit = True\<rparr>"
    by (simp add: eval_defs)
  show ?thesis using h respondOnHit_always_true [OF h] by simp
qed

text \<open>
  C9. A constructed cache is backed by LRU when the \<open>cache\<close> option is absent, by LFU when
  it is the string \<open>LFU\<close>, and by LRU for every other string; the implementation receives
  the configured expiration time.
\<close>

theorem policy_selection:
  assumes "new_ZoicCache opts = Inr z"
  shows "(opt_field opt_cache opts = None \<longrightarrow> cache z = LRU (expire z))
       \<and> (opt_field opt_cache opts = Some ''LFU'' \<longrightarrow> cache z = LFU (expire z))
       \<and> (\<forall>c. opt_field opt_cache opts = Some c \<and> c \<noteq> ''LFU'' \<longrightarrow> cache z = LRU (expire z))"
  using assms by (auto simp: new_ZoicCache_def initCacheType_def split: sum.splits)

theorem policy_selection_witness:
  "(\<exists>z. new_ZoicCache None = Inr z \<and> cache z = LRU (expire z))
   \<and> (\<exists>z. new_ZoicCache (Some \<lparr>opt_cache = Some ''LFU'', opt_expire = Some (ENum (Num 60)),
                                opt_respondOnHit = None\<rparr>) = Inr z
          \<and> cache z = LFU (expire z))
   \<and> (\<exists>z. new_ZoicCache (Some \<lparr>opt_cache = Some ''lfu'', opt_expire = Some (ENum (Num 60)),
                                opt_respondOnHit = None\<rparr>) = Inr z
          \<and> cache z = LRU (expire z))"
proof -
  have h1: "new_ZoicCache None
      = Inr \<lparr>cache = LRU (Num 86400), expire = Num 86400, respondOnHit = True\<rparr>"
    by (simp add: eval_defs)
  have h2: "new_ZoicCache (Some \<lparr>opt_cache = Some ''LFU'', opt_expire = Some (ENum (Num 60)),
                                  opt_respondOnHit = None\<rparr>)
      = Inr \<lparr>cache = LFU (Num 60), expire = Num 60, respondOnHit = True\<rparr>"
    by (simp add: eval_defs)
  have h3: "new_ZoicCache (Some \<lparr>opt_cache = Some ''lfu'', opt_expire = Some (ENum (Num 60)),
                                  opt_respondOnHit = None\<rparr>)
      = Inr \<lparr>cache = LRU (Num 60), expire = Num 60, respondOnHit = True\<rparr>"
    by (simp add: eval_defs)
  show ?thesis
    using h1 h2 h3 policy_selection [OF h1] policy_selection [OF h2] policy_selection [OF h3]
    by (simp add: opt_field_def)
qed

section \<open>The put middleware\<close>

text \<open>
  C8. \<open>put\<close> calls the next middleware iff the cache's \<open>put\<close> resolves to the success
  code 0. Every other result, the failure code -1 or a raised error, is reported: \<open>put\<close>
  returns without calling \<open>next\<close>, and the response body of the context is a report with
  \<open>success = False\<close> and a message. On success the outcome is that of \<open>next()\<close>, whose
  own synchronous throw is caught and reported as well.
\<close>

theorem put_proceeds_iff_success:
  "(calls_next (put cache_put next ctx)
      = (cache_put (url_pathname ctx @ url_search ctx) (state_zoic ctx) = Resolved Good_put))
   \<and> (cache_put (url_pathname ctx @ url_search ctx) (state_zoic ctx) \<noteq> Resolved Good_put \<longrightarrow>
        (\<exists>rep. put cache_put next ctx = Finished (ctx\<lparr>response_body := FailureReport rep\<rparr>)
               \<and> \<not> success rep))
   \<and> (cache_put (url_pathname ctx @ url_search ctx) (state_zoic ctx) = Resolved Err_put \<longrightarrow>
        put cache_put next ctx = Finished (ctx\<lparr>response_body := FailureReport
            \<lparr>success = False, message = ''failed to add entry to cache''\<rparr>\<rparr>))
   \<and> (\<forall>err. cache_put (url_pathname ctx @ url_search ctx) (state_zoic ctx) = Rejected err \<longrightarrow>
        put cache_put next ctx = Finished (ctx\<lparr>response_body := FailureReport
            \<lparr>success = False,
             message = err @ '' ocurred when trying to add to the cache''\<rparr>\<rparr>))
   \<and> (cache_put (url_pathname ctx @ url_search ctx) (state_zoic ctx) = Resolved Good_put \<longrightarrow>
        put cache_put next ctx =
          (case next ctx of
             Returned ctx' \<Rightarrow> Next ctx'
           | Threw err ctx' \<Rightarrow> NextThrew (ctx'\<lparr>response_body := FailureReport
               \<lparr>success = False,
                message = err @ '' ocurred when trying to add to the cache''\<rparr>\<rparr>)))"
proof -
  let ?r = "cache_put (url_pathname ctx @ url_search ctx) (state_zoic ctx)"
  show ?thesis
  proof (cases ?r)
    case (Resolved c)
    then show ?thesis
    proof (cases c)
      case Good_put
      then show ?thesis using Resolved
        by (cases "next ctx") (simp_all add: put_def caught_def Let_def)
    next
      case Err_put
      have "\<not> success \<lparr>success = False, message = ''failed to add entry to cache''\<rparr>"
        by simp
      then show ?thesis using Resolved Err_put
        by (auto simp add: put_def Let_def)
    qed
  next
    case (Rejected err)
    have "\<not> success \<lparr>success = False,
             message = err @ '' ocurred when trying to add to the cache''\<rparr>"
      by simp
    then show ?thesis using Rejected by (auto simp add: put_def caught_def Let_def)
  qed
qed

theorem put_proceeds_iff_success_witness:
  "put (always (Resolved Good_put)) Returned
       \<lparr>url_pathname = ''/a'', url_search = ''?q'', state_zoic = ''v'', response_body = Body ''b''\<rparr>
     = Next \<lparr>url_pathname = ''/a'', url_search = ''?q'', state_zoic = ''v'',
             response_body = Body ''b''\<rparr>
   \<and> put (always (Resolved Good_put)) (Threw ''Error: down'')
       \<lparr>url_pathname = ''/a'', url_search = ''?q'', state_zoic = ''v'', response_body = Body ''b''\<rparr>
     = NextThrew \<lparr>url_pathname = ''/a'', url_search = ''?q'', state_zoic = ''v'',
                  response_body = FailureReport
                    \<lparr>success = False,
                     message = ''Error: down ocurred when trying to add to the cache''\<rparr>\<rparr>
   \<and> put (always (Resolved Err_put)) Returned
       \<lparr>url_pathname = ''/a'', url_search = ''?q'', state_zoic = ''v'', response_body = Body ''b''\<rparr>
     = Finished \<lparr>url_pathname = ''/a'', url_search = ''?q'', state_zoic = ''v'',
                 response_body = FailureReport
                   \<lparr>success = False, message = ''failed to add entry to cache''\<rparr>\<rparr>
   \<and> put (always (Rejected ''Error: full'')) Returned
       \<lparr>url_pathname = ''/a'', url_search = ''?q'', state_zoic = ''v'', response_body = Body ''b''\<rparr>
     = Finished \<lparr>url_pathname = ''/a'', url_search = ''?q'', state_zoic = ''v'',
                 response_body = FailureReport
                   \<lparr>success = False,
                    message = ''Error: full ocurred when trying to add to the cache''\<rparr>\<rparr>"
proof -
  let ?ctx = "\<lparr>url_pathname = ''/a'', url_search = ''?q'', state_zoic = ''v'',
               response_body = Body ''b''\<rparr>"
  have r0: "always (Resolved Good_put) (url_pathname ?ctx @ url_search ?ctx) (state_zoic ?ctx)
              = Resolved Good_put"
    and r1: "always (Resolved Err_put) (url_pathname ?ctx @ url_search ?ctx) (state_zoic ?ctx)
              = Resolved Err_put"
    and r2: "always (Rejected ''Error: full'') (url_pathname ?ctx @ url_search ?ctx)
               (state_zoic ?ctx) = Rejected ''Error: full''"
    by (simp_all add: always_def)
  have c0: "put (always (Resolved Good_put)) Returned ?ctx = Next ?ctx"
    using put_proceeds_iff_success [of "always (Resolved Good_put)" Returned ?ctx] r0 by simp
  have c0': "put (always (Resolved Good_put)) (Threw ''Error: down'') ?ctx
      = NextThrew (?ctx\<lparr>response_body := FailureReport \<lparr>success = False,
          message = ''Error: down'' @ '' ocurred when trying to add to the cache''\<rparr>\<rparr>)"
    using put_proceeds_iff_success
      [of "always (Resolved Good_put)" "Threw ''Error: down''" ?ctx] r0 by simp
  have c1: "put (always (Resolved Err_put)) Returned ?ctx = Finished (?ctx\<lparr>response_body :=
              FailureReport \<lparr>success = False, message = ''failed to add entry to cache''\<rparr>\<rparr>)"
    using put_proceeds_iff_success [of "always (Resolved Err_put)" Returned ?ctx] r1 by blast
  have c2: "put (always (Rejected ''Error: full'')) Returned ?ctx = Finished (?ctx\<lparr>response_body :=
              FailureReport \<lparr>success = False,
                message = ''Error: full'' @ '' ocurred when trying to add to the cache''\<rparr>\<rparr>)"
    using put_proceeds_iff_success [of "always (Rejected ''Error: full'')" Returned ?ctx] r2
    by blast
  show ?thesis using c0 c0' c1 c2 by simp
qed

section \<open>The doubly linked list\<close>

subsection \<open>Segments of links\<close>

lemma seg_bound: "seg f h p as q \<Longrightarrow> a \<in> set as \<Longrightarrow> a < length h"
  by (induction as arbitrary: p) auto

lemma seg_append: "seg f h p (xs @ ys) q = (\<exists>m. seg f h p xs m \<and> seg f h m ys q)"
  by (induction xs arbitrary: p) auto

lemma seg_cong:
  assumes "seg f h p as q"
    and "length h \<le> length h'"
    and "\<And>a. a \<in> set as \<Longrightarrow> a < length h \<Longrightarrow> f (h' ! a) = f (h ! a)"
  shows "seg f h' p as q"
  using assms(1,3)
proof (induction as arbitrary: p)
  case Nil
  then show ?case by simp
next
  case (Cons a as)
  from Cons.prems(1) have a: "p = Some a" "a < length h" "seg f h (f (h ! a)) as q" by auto
  have "f (h' ! a) = f (h ! a)" using Cons.prems(2) a(2) by simp
  moreover have "seg f h' (f (h ! a)) as q" using Cons.IH a(3) Cons.prems(2) by simp
  ultimately show ?case using a assms(2) by simp
qed

lemma seg_functional: "seg f h p as q \<Longrightarrow> seg f h p bs q \<Longrightarrow> q = None \<Longrightarrow> as = bs"
proof (induction as arbitrary: p bs)
  case Nil
  then show ?case by (cases bs) auto
next
  case (Cons a as)
  then show ?case by (cases bs) auto
qed

lemma is_list_head: "is_list l as \<Longrightarrow> head l = (case as of [] \<Rightarrow> None | a # _ \<Rightarrow> Some a)"
  by (cases as) (auto simp: is_list_def)

lemma is_list_tail: "is_list l as \<Longrightarrow> tail l = (if as = [] then None else Some (last as))"
  by (cases as rule: rev_cases) (auto simp: is_list_def)

lemma is_list_empty_iff:
  assumes "is_list l as"
  shows "(head l = None) = (as = [])" and "(tail l = None) = (as = [])"
  using is_list_head[OF assms] is_list_tail[OF assms] by (auto split: list.splits)

text \<open>The nodes of a list are determined by the list: the forward chain from the head.\<close>

lemma is_list_unique: "is_list l as \<Longrightarrow> is_list l bs \<Longrightarrow> as = bs"
  using seg_functional[of node_next "heap l" "head l" as None bs] by (simp add: is_list_def)

lemma is_list_new: "is_list new_DoublyLinkedList []"
  by (simp add: is_list_def new_DoublyLinkedList_def)

lemma addHead_empty:
  assumes "is_list l []"
  shows "addHead v k l = Inr (length (heap l),
           l\<lparr>heap := heap l @ [new_Node v None k], head := Some (length (heap l)),
             tail := Some (length (heap l))\<rparr>)"
  using assms by (simp add: is_list_def addHead_def Let_def)

lemma addHead_nonempty:
  assumes "is_list l (x # xs)"
  shows "addHead v k l = Inr (length (heap l),
           l\<lparr>heap := (heap l @ [new_Node v (Some x) k])
                      [x := (heap l ! x)\<lparr>node_prev := Some (length (heap l))\<rparr>],
             head := Some (length (heap l))\<rparr>)"
proof -
  have hd: "head l = Some x" using is_list_head[OF assms] by simp
  obtain t where tl: "tail l = Some t" using is_list_tail[OF assms] by auto
  have x: "x < length (heap l)" using assms by (auto simp: is_list_def)
  show ?thesis using hd tl x
    by (simp add: addHead_def deref_def new_Node_def nth_append Let_def)
qed

lemma nth_patch_prev:
  assumes "a < length h" and "x < length h"
  shows "node_next ((h @ [n])[x := (h ! x)\<lparr>node_prev := p\<rparr>] ! a) = node_next (h ! a)"
    and "a \<noteq> x \<Longrightarrow> node_prev ((h @ [n])[x := (h ! x)\<lparr>node_prev := p\<rparr>] ! a) = node_prev (h ! a)"
  using assms by (cases "a = x"; simp add: nth_append)+

lemma addHead_is_list:
  assumes "is_list l as" and "addHead v k l = Inr (a, l')"
  shows "is_list l' (a # as)"
proof (cases as)
  case Nil
  then show ?thesis using assms addHead_empty[of l v k]
    by (auto simp: is_list_def new_Node_def)
next
  case (Cons x xs)
  let ?h = "heap l" and ?a = "length (heap l)"
  let ?h' = "(?h @ [new_Node v (Some x) k])[x := (?h ! x)\<lparr>node_prev := Some ?a\<rparr>]"
  have eq: "a = ?a" "l' = l\<lparr>heap := ?h', head := Some ?a\<rparr>"
    using assms Cons addHead_nonempty[of l x xs v k] by auto
  have d: "distinct as" and fw: "seg node_next ?h (head l) as None"
    and bw: "seg node_prev ?h (tail l) (rev as) None"
    using assms(1) by (auto simp: is_list_def)
  have bnd: "\<And>b. b \<in> set as \<Longrightarrow> b < ?a" using seg_bound[OF fw] by simp
  have x: "x < ?a" using bnd Cons by simp
  have hd: "head l = Some x" using is_list_head[OF assms(1)] Cons by simp
  have fresh: "?a \<notin> set as" using bnd by auto
  have fwx: "seg node_next ?h (Some x) as None" using fw hd by simp
  have fw': "seg node_next ?h' (Some x) as None"
  proof (rule seg_cong[OF fwx])
    fix b assume b: "b \<in> set as" "b < length ?h"
    show "node_next (?h' ! b) = node_next (?h ! b)"
      using nth_patch_prev(1)[OF b(2) x] by simp
  qed simp
  have "seg node_prev ?h (tail l) (rev xs @ [x]) None" using bw Cons by simp
  then have bwx: "seg node_prev ?h (tail l) (rev xs) (Some x)"
    by (auto simp: seg_append)
  have "x \<notin> set xs" using d Cons by simp
  have bw': "seg node_prev ?h' (tail l) (rev xs) (Some x)"
  proof (rule seg_cong[OF bwx])
    fix b assume b: "b \<in> set (rev xs)" "b < length ?h"
    then have "b \<noteq> x" using \<open>x \<notin> set xs\<close> by auto
    then show "node_prev (?h' ! b) = node_prev (?h ! b)"
      using nth_patch_prev(2)[OF b(2) x] by simp
  qed simp
  have "seg node_prev ?h' (tail l) (rev (a # as)) None"
    using bw' x eq(1) Cons by (simp add: seg_append nth_append nth_list_update new_Node_def)
  moreover have "seg node_next ?h' (Some ?a) (a # as) None"
    using fw' x eq(1) by (simp add: nth_append nth_list_update new_Node_def)
  ultimately show ?thesis using d fresh eq by (simp add: is_list_def)
qed

lemma addHead_succeeds:
  assumes "is_list l as"
  shows "\<exists>l'. addHead v k l = Inr (length (heap l), l')"
  using assms addHead_empty[of l v k] addHead_nonempty[of l _ _ v k] by (cases as) auto

subsection \<open>Removing at either end\<close>

lemma deleteTail_empty:
  assumes "is_list l []"
  shows "deleteTail l = Inr (None, l\<lparr>head := None, tail := None\<rparr>)"
  using assms by (simp add: is_list_def deleteTail_def Let_def)

lemma deleteTail_single:
  assumes "is_list l [a]"
  shows "deleteTail l = Inr (Some a, l\<lparr>head := None, tail := None\<rparr>)"
  using assms by (simp add: is_list_def deleteTail_def Let_def)

lemma deleteTail_many:
  assumes "is_list l (bs @ [b, a])"
  shows "deleteTail l = Inr (Some a,
           l\<lparr>tail := Some b, heap := (heap l)[b := (heap l ! b)\<lparr>node_next := None\<rparr>]\<rparr>)"
proof -
  have hd: "head l = Some (hd (bs @ [b, a]))"
    using is_list_head[OF assms] by (cases bs) auto
  have tl: "tail l = Some a" using is_list_tail[OF assms] by simp
  have d: "distinct (bs @ [b, a])" using assms by (simp add: is_list_def)
  have ne: "hd (bs @ [b, a]) \<noteq> a" using d by (cases bs) auto
  have "seg node_prev (heap l) (Some a) (a # b # rev bs) None"
    using assms tl by (simp add: is_list_def)
  then have a: "a < length (heap l)" and pv: "node_prev (heap l ! a) = Some b"
    and b: "b < length (heap l)" by auto
  show ?thesis using hd tl ne a pv b
    by (simp add: deleteTail_def deref_def Let_def)
qed

lemma deleteTail_many_is_list:
  assumes "is_list l (bs @ [b, a])"
  shows "is_list (l\<lparr>tail := Some b, heap := (heap l)[b := (heap l ! b)\<lparr>node_next := None\<rparr>]\<rparr>)
           (bs @ [b])"
proof -
  let ?h = "heap l"
  let ?h' = "?h[b := (?h ! b)\<lparr>node_next := None\<rparr>]"
  have d: "distinct (bs @ [b, a])" and fw: "seg node_next ?h (head l) (bs @ [b, a]) None"
    and bw: "seg node_prev ?h (tail l) (a # b # rev bs) None"
    using assms by (auto simp: is_list_def)
  from fw have fwb: "seg node_next ?h (head l) bs (Some b)" and b: "b < length ?h"
    by (auto simp: seg_append)
  have "b \<notin> set bs" using d by simp
  have fw': "seg node_next ?h' (head l) bs (Some b)"
  proof (rule seg_cong[OF fwb])
    fix c assume c: "c \<in> set bs" "c < length ?h"
    then have "c \<noteq> b" using \<open>b \<notin> set bs\<close> by auto
    then show "node_next (?h' ! c) = node_next (?h ! c)" by simp
  qed simp
  from bw have bwb: "seg node_prev ?h (Some b) (b # rev bs) None" by auto
  have bw': "seg node_prev ?h' (Some b) (b # rev bs) None"
  proof (rule seg_cong[OF bwb])
    fix c assume c: "c \<in> set (b # rev bs)" "c < length ?h"
    show "node_prev (?h' ! c) = node_prev (?h ! c)"
      using c(2) by (cases "c = b") simp_all
  qed simp
  show ?thesis using d fw' bw' b by (simp add: is_list_def seg_append)
qed

lemma deleteHead_empty:
  assumes "is_list l []"
  shows "deleteHead l = Inr (None, l\<lparr>head := None, tail := None\<rparr>)"
  using assms by (simp add: is_list_def deleteHead_def Let_def)

lemma deleteHead_single:
  assumes "is_list l [a]"
  shows "deleteHead l = Inr (Some a, l\<lparr>head := None, tail := None\<rparr>)"
  using assms by (simp add: is_list_def deleteHead_def Let_def)

lemma deleteHead_many:
  assumes "is_list l (a # b # cs)"
  shows "deleteHead l = Inr (Some a,
           l\<lparr>head := Some b, heap := (heap l)[b := (heap l ! b)\<lparr>node_prev := None\<rparr>]\<rparr>)"
proof -
  have hd: "head l = Some a" using is_list_head[OF assms] by simp
  have tl: "tail l = Some (last (b # cs))" using is_list_tail[OF assms] by simp
  have d: "distinct (a # b # cs)" using assms by (simp add: is_list_def)
  have "last (b # cs) \<in> set (b # cs)" by (rule last_in_set) simp
  then have ne: "a \<noteq> last (b # cs)" using d by auto
  have "seg node_next (heap l) (Some a) (a # b # cs) None"
    using assms hd by (simp add: is_list_def)
  then have a: "a < length (heap l)" and nx: "node_next (heap l ! a) = Some b"
    and b: "b < length (heap l)" by auto
  show ?thesis using hd tl ne a nx b
    by (simp add: deleteHead_def deref_def Let_def)
qed

lemma deleteHead_many_is_list:
  assumes "is_list l (a # b # cs)"
  shows "is_list (l\<lparr>head := Some b, heap := (heap l)[b := (heap l ! b)\<lparr>node_prev := None\<rparr>]\<rparr>)
           (b # cs)"
proof -
  let ?h = "heap l"
  let ?h' = "?h[b := (?h ! b)\<lparr>node_prev := None\<rparr>]"
  have d: "distinct (a # b # cs)" and fw: "seg node_next ?h (head l) (a # b # cs) None"
    and bw: "seg node_prev ?h (tail l) (rev cs @ [b, a]) None"
    using assms by (auto simp: is_list_def)
  from bw have bwb: "seg node_prev ?h (tail l) (rev cs) (Some b)" and b: "b < length ?h"
    by (auto simp: seg_append)
  have "b \<notin> set cs" using d by simp
  have bw': "seg node_prev ?h' (tail l) (rev cs) (Some b)"
  proof (rule seg_cong[OF bwb])
    fix c assume c: "c \<in> set (rev cs)" "c < length ?h"
    then have "c \<noteq> b" using \<open>b \<notin> set cs\<close> by auto
    then show "node_prev (?h' ! c) = node_prev (?h ! c)" by simp
  qed simp
  from fw have fwb: "seg node_next ?h (Some b) (b # cs) None" by auto
  have fw': "seg node_next ?h' (Some b) (b # cs) None"
  proof (rule seg_cong[OF fwb])
    fix c assume c: "c \<in> set (b # cs)" "c < length ?h"
    show "node_next (?h' ! c) = node_next (?h ! c)"
      using c(2) by (cases "c = b") simp_all
  qed simp
  show ?thesis using d fw' bw' b by (simp add: is_list_def seg_append)
qed

lemma is_list_reset: "is_list (l\<lparr>head := None, tail := None\<rparr>) []"
  by (simp add: is_list_def)

lemma deleteTail_is_list:
  assumes "is_list l as"
  shows "\<exists>d l'. deleteTail l = Inr (d, l') \<and> is_list l' (butlast as)"
proof (cases as rule: rev_cases)
  case Nil
  then show ?thesis using assms deleteTail_empty[of l] is_list_reset[of l] by simp
next
  case (snoc bs a)
  show ?thesis
  proof (cases bs rule: rev_cases)
    case Nil
    then show ?thesis using snoc assms deleteTail_single[of l a] is_list_reset[of l] by simp
  next
    case (snoc cs b)
    then have "is_list l (cs @ [b, a])" using assms \<open>as = bs @ [a]\<close> by simp
    then show ?thesis
      using deleteTail_many[of l cs b a] deleteTail_many_is_list[of l cs b a] snoc
        \<open>as = bs @ [a]\<close> by (simp add: butlast_append)
  qed
qed

lemma deleteHead_is_list:
  assumes "is_list l as"
  shows "\<exists>d l'. deleteHead l = Inr (d, l') \<and> is_list l' (tl as)"
proof (cases as)
  case Nil
  then show ?thesis using assms deleteHead_empty[of l] is_list_reset[of l] by simp
next
  case (Cons a bs)
  show ?thesis
  proof (cases bs)
    case Nil
    then show ?thesis using Cons assms deleteHead_single[of l a] is_list_reset[of l] by simp
  next
    case (Cons b cs)
    then have "is_list l (a # b # cs)" using assms \<open>as = a # bs\<close> by simp
    then show ?thesis
      using deleteHead_many[of l a b cs] deleteHead_many_is_list[of l a b cs] Cons
        \<open>as = a # bs\<close> by simp
  qed
qed

lemma apply_op_is_list:
  assumes "is_list l as"
  shows "\<exists>l' as'. apply_op x l = Inr l' \<and> is_list l' as'"
proof (cases x)
  case (AddHead v k)
  obtain l' where l': "addHead v k l = Inr (length (heap l), l')"
    using addHead_succeeds[OF assms] by blast
  then have "is_list l' (length (heap l) # as)" using addHead_is_list[OF assms] by blast
  then show ?thesis using AddHead l' by auto
next
  case DeleteHead
  then show ?thesis using deleteHead_is_list[OF assms] by auto
next
  case DeleteTail
  then show ?thesis using deleteTail_is_list[OF assms] by auto
qed

lemma run_is_list:
  assumes "is_list l as"
  shows "\<exists>l' as'. run xs l = Inr l' \<and> is_list l' as'"
  using assms
proof (induction xs arbitrary: l as)
  case Nil
  then show ?case by auto
next
  case (Cons x xs)
  obtain l1 as1 where s: "apply_op x l = Inr l1" "is_list l1 as1"
    using apply_op_is_list[OF Cons.prems] by blast
  then show ?case using Cons.IH[OF s(2)] by simp
qed

subsection \<open>The contracts of the operations\<close>

text \<open>
  C5. Starting from a new list, every sequence of addHead, deleteHead and deleteTail runs
  without an error and ends in a list whose nodes \<open>as\<close> are linked as \<open>is_list\<close> says; there
  the head is null iff the tail is null, and both are null iff the list holds no node.
  Each single operation keeps this, since a sequence extended by one operation is a
  sequence.
\<close>

theorem head_tail_null_iff_empty:
  "\<exists>l as. run ops new_DoublyLinkedList = Inr l \<and> is_list l as
      \<and> ((head l = None) = (tail l = None))
      \<and> ((head l = None \<and> tail l = None) = (as = []))"
proof -
  obtain l as where r: "run ops (new_DoublyLinkedList :: ('a, 'b) DoublyLinkedList) = Inr l" "is_list l as"
    using run_is_list[OF is_list_new] by blast
  then show ?thesis using is_list_empty_iff[OF r(2)] by auto
qed

theorem head_tail_null_iff_empty_witness:
  "\<exists>l as. run [AddHead ''v0'' ''k0'', AddHead ''v1'' ''k1'', DeleteTail, DeleteHead, DeleteHead]
             new_DoublyLinkedList = Inr l \<and> is_list l as
      \<and> ((head l = None) = (tail l = None))
      \<and> ((head l = None \<and> tail l = None) = (as = []))"
  using head_tail_null_iff_empty
    [of "[AddHead ''v0'' ''k0'', AddHead ''v1'' ''k1'', DeleteTail, DeleteHead, DeleteHead]"] .

text \<open>
  C6. On a list holding the single node \<open>a\<close>, deleteTail returns \<open>a\<close> and sets head and tail
  to null, the store unchanged. On a list \<open>bs @ [b, a]\<close> of two nodes or more it returns the
  old tail \<open>a\<close>, makes \<open>a\<close>'s predecessor \<open>b\<close> the tail and sets the forward link of \<open>b\<close> to
  null; the head and every other node of the store are as before, and what remains is the
  list \<open>bs @ [b]\<close>.
\<close>

theorem deleteTail_contract:
  assumes "is_list l as"
  shows "(\<forall>a. as = [a] \<longrightarrow>
            tail l = Some a
          \<and> (\<exists>l'. deleteTail l = Inr (Some a, l') \<and> head l' = None \<and> tail l' = None
                  \<and> heap l' = heap l \<and> is_list l' []))
       \<and> (\<forall>bs b a. as = bs @ [b, a] \<longrightarrow>
            tail l = Some a \<and> node_prev (heap l ! a) = Some b
          \<and> (\<exists>l'. deleteTail l = Inr (Some a, l') \<and> tail l' = Some b \<and> head l' = head l
                  \<and> heap l' = (heap l)[b := (heap l ! b)\<lparr>node_next := None\<rparr>]
                  \<and> node_next (heap l' ! b) = None
                  \<and> (\<forall>c. c \<noteq> b \<longrightarrow> heap l' ! c = heap l ! c)
                  \<and> is_list l' (bs @ [b])))"
proof (intro conjI allI impI)
  fix a assume "as = [a]"
  then show "tail l = Some a" using is_list_tail[OF assms] by simp
next
  fix a assume "as = [a]"
  then have "is_list l [a]" using assms by simp
  then show "\<exists>l'. deleteTail l = Inr (Some a, l') \<and> head l' = None \<and> tail l' = None
                  \<and> heap l' = heap l \<and> is_list l' []"
    using deleteTail_single[of l a] is_list_reset[of l] by simp
next
  fix bs b a assume "as = bs @ [b, a]"
  then show "tail l = Some a" using is_list_tail[OF assms] by simp
next
  fix bs b a assume "as = bs @ [b, a]"
  then have "seg node_prev (heap l) (tail l) (a # b # rev bs) None"
    using assms by (simp add: is_list_def)
  then show "node_prev (heap l ! a) = Some b" by auto
next
  fix bs b a assume "as = bs @ [b, a]"
  then have il: "is_list l (bs @ [b, a])" using assms by simp
  then have b: "b < length (heap l)" by (auto simp: is_list_def seg_append)
  let ?l' = "l\<lparr>tail := Some b, heap := (heap l)[b := (heap l ! b)\<lparr>node_next := None\<rparr>]\<rparr>"
  have "deleteTail l = Inr (Some a, ?l')" by (rule deleteTail_many[OF il])
  moreover have "is_list ?l' (bs @ [b])" by (rule deleteTail_many_is_list[OF il])
  moreover have "node_next (heap ?l' ! b) = None" using b by simp
  moreover have "\<forall>c. c \<noteq> b \<longrightarrow> heap ?l' ! c = heap l ! c" by simp
  ultimately show "\<exists>l'. deleteTail l = Inr (Some a, l') \<and> tail l' = Some b \<and> head l' = head l
                  \<and> heap l' = (heap l)[b := (heap l ! b)\<lparr>node_next := None\<rparr>]
                  \<and> node_next (heap l' ! b) = None
                  \<and> (\<forall>c. c \<noteq> b \<longrightarrow> heap l' ! c = heap l ! c)
                  \<and> is_list l' (bs @ [b])"
    by simp
qed

theorem deleteTail_contract_witness:
  "is_list \<lparr>heap = [new_Node ''v'' None ''k''], head = Some 0, tail = Some 0\<rparr> [0]
   \<and> (\<exists>l'. deleteTail \<lparr>heap = [new_Node ''v'' None ''k''], head = Some 0, tail = Some 0\<rparr>
              = Inr (Some 0, l') \<and> head l' = None \<and> tail l' = None)
   \<and> is_list \<lparr>heap = [\<lparr>node_next = None, node_prev = Some 1, node_value = ''v0'', node_key = ''k0''\<rparr>,
                       \<lparr>node_next = Some 0, node_prev = None, node_value = ''v1'', node_key = ''k1''\<rparr>],
               head = Some 1, tail = Some 0\<rparr> [1, 0]
   \<and> (\<exists>l'. deleteTail \<lparr>heap = [\<lparr>node_next = None, node_prev = Some 1, node_value = ''v0'', node_key = ''k0''\<rparr>,
                       \<lparr>node_next = Some 0, node_prev = None, node_value = ''v1'', node_key = ''k1''\<rparr>],
               head = Some 1, tail = Some 0\<rparr> = Inr (Some 0, l') \<and> tail l' = Some 1
            \<and> head l' = Some 1 \<and> node_next (heap l' ! 1) = None \<and> heap l' ! 0 = \<lparr>node_next = None, node_prev = Some 1, node_value = ''v0'', node_key = ''k0''\<rparr>)"
proof -
  let ?l1 = "\<lparr>heap = [new_Node ''v'' None ''k''], head = Some 0, tail = Some 0\<rparr>"
  let ?l2 = "\<lparr>heap = [\<lparr>node_next = None, node_prev = Some 1, node_value = ''v0'', node_key = ''k0''\<rparr>,
                       \<lparr>node_next = Some 0, node_prev = None, node_value = ''v1'', node_key = ''k1''\<rparr>],
               head = Some 1, tail = Some 0\<rparr>"
  have h1: "is_list ?l1 [0]" by (simp add: is_list_def new_Node_def)
  have h2: "is_list ?l2 [1, 0]" by (simp add: is_list_def)
  have c1: "\<exists>l'. deleteTail ?l1 = Inr (Some 0, l') \<and> head l' = None \<and> tail l' = None"
    using deleteTail_contract [OF h1] by blast
  have "\<exists>l'. deleteTail ?l2 = Inr (Some 0, l') \<and> tail l' = Some 1 \<and> head l' = head ?l2
                  \<and> heap l' = (heap ?l2)[1 := (heap ?l2 ! 1)\<lparr>node_next := None\<rparr>]
                  \<and> node_next (heap l' ! 1) = None
                  \<and> (\<forall>c. c \<noteq> 1 \<longrightarrow> heap l' ! c = heap ?l2 ! c)
                  \<and> is_list l' ([] @ [1])"
    using deleteTail_contract [OF h2] by simp
  then obtain l' where l': "deleteTail ?l2 = Inr (Some 0, l')" "tail l' = Some 1" "head l' = head ?l2"
       "node_next (heap l' ! 1) = None" "\<forall>c. c \<noteq> 1 \<longrightarrow> heap l' ! c = heap ?l2 ! c" by blast
  from l'(5) have "heap l' ! 0 = heap ?l2 ! 0" by simp
  then have c2: "\<exists>l'. deleteTail ?l2 = Inr (Some 0, l') \<and> tail l' = Some 1
            \<and> head l' = Some 1 \<and> node_next (heap l' ! 1) = None \<and> heap l' ! 0 = \<lparr>node_next = None, node_prev = Some 1, node_value = ''v0'', node_key = ''k0''\<rparr>"
    using l' by simp
  show ?thesis using h1 h2 c1 c2 by blast
qed

text \<open>
  C7. On a list with nodes \<open>as\<close>, addHead allocates a node that is not one of \<open>as\<close>, returns
  its reference and makes it the head; the node holds the given payload and key, its
  backward link is null and its forward link is the former head. On the empty list the
  node is the tail as well. Otherwise the tail stays, the backward link of the former
  head is set to the new node, and no other node changes. The result is the list of the
  new node followed by \<open>as\<close>, so every link has its counterpart.
\<close>

theorem addHead_contract:
  assumes "is_list l as"
  shows "\<exists>l'. addHead v k l = Inr (length (heap l), l')
           \<and> length (heap l) \<notin> set as
           \<and> length (heap l') = Suc (length (heap l))
           \<and> head l' = Some (length (heap l))
           \<and> heap l' ! length (heap l) = \<lparr>node_next = head l, node_prev = None, node_value = v, node_key = k\<rparr>
           \<and> (as = [] \<longrightarrow> tail l' = Some (length (heap l)))
           \<and> (\<forall>x xs. as = x # xs \<longrightarrow>
                 head l = Some x \<and> tail l' = tail l
               \<and> heap l' ! x = (heap l ! x)\<lparr>node_prev := Some (length (heap l))\<rparr>
               \<and> (\<forall>c. c < length (heap l) \<and> c \<noteq> x \<longrightarrow> heap l' ! c = heap l ! c))
           \<and> is_list l' (length (heap l) # as)"
proof (cases as)
  case Nil
  then have e: "is_list l []" using assms by simp
  then have hd: "head l = None" by (simp add: is_list_def)
  let ?l' = "l\<lparr>heap := heap l @ [new_Node v None k], head := Some (length (heap l)),
             tail := Some (length (heap l))\<rparr>"
  have a: "addHead v k l = Inr (length (heap l), ?l')" by (rule addHead_empty[OF e])
  then have "is_list ?l' (length (heap l) # as)" using addHead_is_list[OF assms] by blast
  then show ?thesis using a hd Nil by (simp add: new_Node_def)
next
  case (Cons x xs)
  then have il: "is_list l (x # xs)" using assms by simp
  have hd: "head l = Some x" using is_list_head[OF il] by simp
  have bnd: "\<And>b. b \<in> set as \<Longrightarrow> b < length (heap l)"
    using assms seg_bound[of node_next "heap l" "head l" as None] by (simp add: is_list_def)
  then have x: "x < length (heap l)" using Cons by simp
  have fresh: "length (heap l) \<notin> set as" using bnd by auto
  let ?l' = "l\<lparr>heap := (heap l @ [new_Node v (Some x) k])
                      [x := (heap l ! x)\<lparr>node_prev := Some (length (heap l))\<rparr>],
             head := Some (length (heap l))\<rparr>"
  have a: "addHead v k l = Inr (length (heap l), ?l')" by (rule addHead_nonempty[OF il])
  then have "is_list ?l' (length (heap l) # as)" using addHead_is_list[OF assms] by blast
  moreover have "heap ?l' ! length (heap l) = \<lparr>node_next = head l, node_prev = None, node_value = v, node_key = k\<rparr>"
    using x hd by (simp add: new_Node_def nth_list_update)
  moreover have "heap ?l' ! x = (heap l ! x)\<lparr>node_prev := Some (length (heap l))\<rparr>"
    using x by simp
  moreover have "\<forall>c. c < length (heap l) \<and> c \<noteq> x \<longrightarrow> heap ?l' ! c = heap l ! c"
    by (simp add: nth_append)
  ultimately show ?thesis using a hd fresh Cons by simp
qed

theorem addHead_contract_witness:
  "is_list (new_DoublyLinkedList :: (string, string) DoublyLinkedList) []
   \<and> addHead ''v0'' ''k0'' new_DoublyLinkedList
       = Inr (0, \<lparr>heap = [\<lparr>node_next = None, node_prev = None, node_value = ''v0'', node_key = ''k0''\<rparr>],
                  head = Some 0, tail = Some 0\<rparr>)
   \<and> is_list \<lparr>heap = [\<lparr>node_next = None, node_prev = None, node_value = ''v0'', node_key = ''k0''\<rparr>],
               head = Some 0, tail = Some 0\<rparr> [0]
   \<and> (\<exists>l'. addHead ''v1'' ''k1''
              \<lparr>heap = [\<lparr>node_next = None, node_prev = None, node_value = ''v0'', node_key = ''k0''\<rparr>],
               head = Some 0, tail = Some 0\<rparr> = Inr (1, l')
          \<and> head l' = Some 1 \<and> tail l' = Some 0
          \<and> heap l' ! 1 = \<lparr>node_next = Some 0, node_prev = None, node_value = ''v1'', node_key = ''k1''\<rparr>
          \<and> node_prev (heap l' ! 0) = Some 1
          \<and> is_list l' [1, 0])"
proof -
  let ?l0 = "new_DoublyLinkedList :: (string, string) DoublyLinkedList"
  let ?l1 = "\<lparr>heap = [\<lparr>node_next = None, node_prev = None, node_value = ''v0'', node_key = ''k0''\<rparr>],
               head = Some 0, tail = Some 0\<rparr>"
  have h0: "is_list ?l0 []" by (simp add: is_list_def new_DoublyLinkedList_def)
  have h1: "is_list ?l1 [0]" by (simp add: is_list_def)
  have c0: "addHead ''v0'' ''k0'' ?l0 = Inr (0, ?l1)"
    using addHead_contract [OF h0, of "''v0''" "''k0''"]
    by (auto simp: new_DoublyLinkedList_def addHead_def Let_def new_Node_def)
  have c1: "\<exists>l'. addHead ''v1'' ''k1'' ?l1 = Inr (1, l')
          \<and> head l' = Some 1 \<and> tail l' = Some 0
          \<and> heap l' ! 1 = \<lparr>node_next = Some 0, node_prev = None, node_value = ''v1'', node_key = ''k1''\<rparr>
          \<and> node_prev (heap l' ! 0) = Some 1
          \<and> is_list l' [1, 0]"
    using addHead_contract [OF h1, of "''v1''" "''k1''"] by auto
  show ?thesis using h0 h1 c0 c1 by blast
qed

text \<open>
  C10. On an empty list, head and tail both null, deleteHead and deleteTail return null
  without an error and leave the list as it was, still empty.
\<close>

theorem delete_on_empty:
  assumes "head l = None" and "tail l = None"
  shows "deleteHead l = Inr (None, l) \<and> deleteTail l = Inr (None, l) \<and> is_list l []"
  using assms by (cases l) (simp add: deleteHead_def deleteTail_def is_list_def)

theorem delete_on_empty_witness:
  "deleteHead (new_DoublyLinkedList :: (string, string) DoublyLinkedList) = Inr (None, new_DoublyLinkedList)
   \<and> deleteTail (new_DoublyLinkedList :: (string, string) DoublyLinkedList) = Inr (None, new_DoublyLinkedList)
   \<and> head (new_DoublyLinkedList :: (string, string) DoublyLinkedList) = None
   \<and> tail (new_DoublyLinkedList :: (string, string) DoublyLinkedList) = None"
proof -
  let ?l0 = "new_DoublyLinkedList :: (string, string) DoublyLinkedList"
  have h: "head ?l0 = None" and t: "tail ?l0 = None" by (simp_all add: new_DoublyLinkedList_def)
  show ?thesis using delete_on_empty [OF h t] h t by simp
qed

end
